theory Spec2Isabelle
  imports Main "HOL-Library.Word"
begin

section \<open>The proc module: a chunk log behind one /proc file\<close>

text \<open>
  The module \<^verbatim>\<open>proc_module.c\<close> keeps every buffer written to its /proc file as one
  entry of a kernel list and serves reads out of that list. The embedding follows the C
  text function by function.

  Machine types. The module is modelled for a 64-bit kernel (LP64): \<^verbatim>\<open>size_t\<close> is
  \<^verbatim>\<open>unsigned long\<close> of 64 bits, \<^verbatim>\<open>loff_t\<close> is \<^verbatim>\<open>long long\<close> and \<^verbatim>\<open>ssize_t\<close> is
  \<^verbatim>\<open>long\<close>. All three are \<open>64 word\<close>; \<open>+\<close> and \<open>-\<close> wrap, \<open>\<le>\<close> and \<open><\<close> on words are the
  unsigned comparisons, and \<open>sint\<close> reads a word as a signed value. Where C compares a
  \<^verbatim>\<open>loff_t\<close> with a \<^verbatim>\<open>size_t\<close>, the usual arithmetic conversions turn both operands
  into \<^verbatim>\<open>unsigned long long\<close> (a 64-bit \<^verbatim>\<open>long long\<close> cannot hold every \<^verbatim>\<open>unsigned long\<close>),
  so such a comparison is the word comparison; only a comparison of a \<^verbatim>\<open>loff_t\<close> with the
  \<^verbatim>\<open>int\<close> constant 0 is signed.
\<close>

type_synonym byte = "8 word"
type_synonym size_t = "64 word"
type_synonym loff_t = "64 word"
type_synonym addr = nat

subsection \<open>Error codes\<close>

text \<open>
  The three error codes the module returns. A function returning \<^verbatim>\<open>ssize_t\<close> is modelled
  with the result type \<open>errno + size_t\<close>: \<open>Inl e\<close> is the return of \<^verbatim>\<open>-e\<close>, \<open>Inr n\<close> the
  return of the count \<open>n\<close>. \<open>errno_val\<close> gives the numbers of the kernel's
  \<^verbatim>\<open>errno-base.h\<close> and \<open>ssize_of\<close> the \<^verbatim>\<open>ssize_t\<close> that the caller sees.
\<close>

datatype errno = ENOMEM | EFAULT | EINVAL

fun errno_val :: "errno \<Rightarrow> int" where
  "errno_val ENOMEM = 12"
| "errno_val EFAULT = 14"
| "errno_val EINVAL = 22"

fun ssize_of :: "errno + size_t \<Rightarrow> 64 word" where
  "ssize_of (Inl e) = - word_of_int (errno_val e)"
| "ssize_of (Inr n) = n"

subsection \<open>Data\<close>

text \<open>
  \<^verbatim>\<open>struct proc_entry_list { char *buf; size_t buf_size; struct list_head list; }\<close>.
  The \<^verbatim>\<open>list_head\<close> links are the positions in a HOL list. An entry carries the address
  of its own allocation (\<open>self_ptr\<close>, the value of \<^verbatim>\<open>new_entry\<close>) and the address of its
  buffer (\<open>buf_ptr\<close>, the pointer stored in \<^verbatim>\<open>buf\<close>); \<open>buf\<close> is the contents of that
  buffer.
\<close>

record proc_entry_list =
  self_ptr :: addr
  buf_ptr :: addr
  buf :: "byte list"
  buf_size :: size_t

text \<open>
  The globals \<^verbatim>\<open>proc_entry_list_head\<close> and \<^verbatim>\<open>proc_entry_list_size\<close>, and the kernel
  allocator's live blocks (\<open>kheap\<close>, the addresses handed out by \<^verbatim>\<open>kmalloc\<close> and not yet
  given back to \<^verbatim>\<open>kfree\<close>). The lock is not modelled: every function runs alone.
\<close>

record kstate =
  proc_entry_list_head :: "proc_entry_list list"
  proc_entry_list_size :: size_t
  kheap :: "addr list"

subsection \<open>The kernel allocator\<close>

text \<open>
  Whether an allocation succeeds is decided by the kernel, so it is an input: \<open>ok\<close>.
  A successful allocation returns an address that is not live and not \<^verbatim>\<open>NULL\<close> (0).
\<close>

definition fresh :: "addr list \<Rightarrow> addr" where
  "fresh h = Suc (fold max h 0)"

definition kmalloc :: "bool \<Rightarrow> addr list \<Rightarrow> addr option \<times> addr list" where
  "kmalloc ok h = (if ok then (Some (fresh h), fresh h # h) else (None, h))"

definition kzalloc :: "bool \<Rightarrow> size_t \<Rightarrow> addr list \<Rightarrow> (addr \<times> byte list) option \<times> addr list" where
  "kzalloc ok n h =
     (case kmalloc ok h of
        (None, h') \<Rightarrow> (None, h')
      | (Some p, h') \<Rightarrow> (Some (p, replicate (unat n) 0), h'))"

definition kmemdup :: "bool \<Rightarrow> byte list \<Rightarrow> size_t \<Rightarrow> addr list \<Rightarrow> (addr \<times> byte list) option \<times> addr list" where
  "kmemdup ok src n h =
     (case kmalloc ok h of
        (None, h') \<Rightarrow> (None, h')
      | (Some p, h') \<Rightarrow> (Some (p, take (unat n) src), h'))"

definition kfree :: "addr \<Rightarrow> addr list \<Rightarrow> addr list" where
  "kfree p h = remove1 p h"

text \<open>The outcomes of the three allocations of one \<^verbatim>\<open>write_proc_module\<close> call.\<close>

record alloc_env =
  entry_ok :: bool
  tmp_ok :: bool
  dup_ok :: bool

subsection \<open>The user-space boundary\<close>

text \<open>
  \<^verbatim>\<open>copy_to_user(to, from, n)\<close> and \<^verbatim>\<open>copy_from_user(to, from, n)\<close> copy a prefix of the
  \<open>n\<close> bytes and return the number of bytes they could not copy. How far the copy gets
  is a property of the caller's memory: \<open>writable\<close> is the number of bytes that can be
  stored at \<^verbatim>\<open>usrbuf\<close> before the first fault, and the list \<open>usrbuf\<close> of the write path is
  the bytes that can be loaded from \<^verbatim>\<open>usrbuf\<close> before the first fault.
\<close>

definition copy_to_user :: "nat \<Rightarrow> byte list \<Rightarrow> size_t \<Rightarrow> byte list \<times> size_t" where
  "copy_to_user writable src n =
     (let d = min (unat n) writable in (take d src, n - of_nat d))"

definition copy_from_user :: "byte list \<Rightarrow> byte list \<Rightarrow> size_t \<Rightarrow> byte list \<times> size_t" where
  "copy_from_user dst usrbuf n =
     (let d = min (unat n) (length usrbuf) in (take d usrbuf @ drop d dst, n - of_nat d))"

subsection \<open>read\<close>

text \<open>
  The body of \<^verbatim>\<open>list_for_each_entry\<close> in \<^verbatim>\<open>read_proc_module\<close>, with \<open>pos\<close> the running
  start offset. The result is the return value, the new \<^verbatim>\<open>*offset\<close> and the bytes stored
  in the caller's buffer. Falling out of the loop returns the initial \<^verbatim>\<open>retval = 0\<close>.
\<close>

fun rd_loop :: "proc_entry_list list \<Rightarrow> nat \<Rightarrow> size_t \<Rightarrow> loff_t \<Rightarrow> size_t
    \<Rightarrow> (errno + size_t) \<times> loff_t \<times> byte list" where
  "rd_loop [] writable len off pos = (Inr 0, off, [])"
| "rd_loop (entry # rest) writable len off pos =
     (let next_pos = pos + buf_size entry in
      if pos \<le> off \<and> off < next_pos then
        (let read_size = (if next_pos - off > len then len else next_pos - off);
             (out, remaining_len) =
                copy_to_user writable (drop (unat (off - pos)) (buf entry)) read_size
         in if remaining_len = read_size then (Inl EFAULT, off, out)
            else (let actual_size = read_size - remaining_len
                  in (Inr actual_size, off + actual_size, out)))
      else rd_loop rest writable len off next_pos)"

definition read_proc_module :: "kstate \<Rightarrow> nat \<Rightarrow> size_t \<Rightarrow> loff_t
    \<Rightarrow> (errno + size_t) \<times> loff_t \<times> byte list \<times> kstate" where
  "read_proc_module s writable len off =
     (if len = 0 \<or> off \<ge> proc_entry_list_size s then (Inr 0, off, [], s)
      else if sint off < 0 then (Inl EINVAL, off, [], s)
      else (case rd_loop (proc_entry_list_head s) writable len off 0 of
              (retval, off', out) \<Rightarrow> (retval, off', out, s)))"

subsection \<open>write\<close>

definition write_proc_module :: "kstate \<Rightarrow> alloc_env \<Rightarrow> byte list \<Rightarrow> size_t \<Rightarrow> loff_t
    \<Rightarrow> (errno + size_t) \<times> loff_t \<times> kstate" where
  "write_proc_module s env usrbuf len off =
     (if len = 0 then (Inr 0, off, s)
      else if sint off < 0 then (Inl EINVAL, off, s)
      else
        (case kmalloc (entry_ok env) (kheap s) of
           (None, h1) \<Rightarrow> (Inl ENOMEM, off, s\<lparr>kheap := h1\<rparr>)
         | (Some new_entry, h1) \<Rightarrow>
             (case kzalloc (tmp_ok env) len h1 of
                (None, h2) \<Rightarrow> (Inl ENOMEM, off, s\<lparr>kheap := kfree new_entry h2\<rparr>)
              | (Some (tmp_ptr, tmp0), h2) \<Rightarrow>
                  (let (tmp, remaining_len) = copy_from_user tmp0 usrbuf len in
                   if remaining_len = len
                   then (Inl EFAULT, off, s\<lparr>kheap := kfree new_entry (kfree tmp_ptr h2)\<rparr>)
                   else
                     (let actual_size = len - remaining_len in
                      case kmemdup (dup_ok env) tmp actual_size h2 of
                        (None, h3) \<Rightarrow>
                          (Inl ENOMEM, off, s\<lparr>kheap := kfree new_entry (kfree tmp_ptr h3)\<rparr>)
                      | (Some (b_ptr, b), h3) \<Rightarrow>
                          (Inr actual_size, off + actual_size,
                           s\<lparr>proc_entry_list_head := proc_entry_list_head s @
                                [\<lparr>self_ptr = new_entry, buf_ptr = b_ptr, buf = b,
                                  buf_size = actual_size\<rparr>],
                             proc_entry_list_size := proc_entry_list_size s + actual_size,
                             kheap := kfree tmp_ptr h3\<rparr>))))))"

subsection \<open>Module load and unload\<close>

text \<open>
  \<^verbatim>\<open>init_proc_module\<close>: \<open>created\<close> says whether \<^verbatim>\<open>proc_create\<close> returned an entry.
  \<^verbatim>\<open>exit_proc_module\<close> unlinks and frees every entry and its buffer.
\<close>

definition init_proc_module :: "bool \<Rightarrow> kstate \<Rightarrow> (errno + size_t) \<times> kstate" where
  "init_proc_module created s =
     (if \<not> created then (Inl ENOMEM, s)
      else (Inr 0, s\<lparr>proc_entry_list_head := [], proc_entry_list_size := 0\<rparr>))"

fun exit_loop :: "proc_entry_list list \<Rightarrow> addr list \<Rightarrow> addr list" where
  "exit_loop [] h = h"
| "exit_loop (tmp # rest) h = exit_loop rest (kfree (self_ptr tmp) (kfree (buf_ptr tmp) h))"

definition exit_proc_module :: "kstate \<Rightarrow> kstate" where
  "exit_proc_module s =
     s\<lparr>proc_entry_list_head := [], proc_entry_list_size := 0,
       kheap := exit_loop (proc_entry_list_head s) (kheap s)\<rparr>"

subsection \<open>The scan of read, taken apart\<close>

text \<open>
  \<open>rd_find\<close> is the search that the loop of \<^verbatim>\<open>read_proc_module\<close> performs: the first entry
  with \<^verbatim>\<open>pos <= off && off < next_pos\<close>, together with its \<open>pos\<close>; \<open>None\<close> is the fall
  through past the loop. \<open>rd_body\<close> is what the loop does with the entry it found. That
  \<open>rd_loop\<close> is the one followed by the other is proved below (\<open>rd_loop_find_None\<close>,
  \<open>rd_loop_find_Some\<close>).
\<close>

fun rd_find :: "proc_entry_list list \<Rightarrow> loff_t \<Rightarrow> size_t \<Rightarrow> (proc_entry_list \<times> size_t) option" where
  "rd_find [] off pos = None"
| "rd_find (entry # rest) off pos =
     (let next_pos = pos + buf_size entry in
      if pos \<le> off \<and> off < next_pos then Some (entry, pos)
      else rd_find rest off next_pos)"

definition rd_body :: "proc_entry_list \<Rightarrow> size_t \<Rightarrow> nat \<Rightarrow> size_t \<Rightarrow> loff_t
    \<Rightarrow> (errno + size_t) \<times> loff_t \<times> byte list" where
  "rd_body entry pos writable len off =
     (let next_pos = pos + buf_size entry;
          read_size = (if next_pos - off > len then len else next_pos - off);
          (out, remaining_len) =
             copy_to_user writable (drop (unat (off - pos)) (buf entry)) read_size
      in if remaining_len = read_size then (Inl EFAULT, off, out)
         else (let actual_size = read_size - remaining_len
               in (Inr actual_size, off + actual_size, out)))"

subsection \<open>The store as the specification sees it\<close>

text \<open>
  The chunk sequence of a state, and the invariants of the store. \<open>total_inv\<close> is the
  invariant in the arithmetic of \<^verbatim>\<open>size_t\<close>; \<open>size_inv\<close> is the same equation over the
  natural numbers, which says in addition that the sizes of all chunks together fit into
  a \<^verbatim>\<open>size_t\<close>. \<open>bufs_inv\<close>: \<^verbatim>\<open>buf_size\<close> is the size of the buffer \<^verbatim>\<open>buf\<close> points to.
\<close>

definition chunks :: "kstate \<Rightarrow> byte list list" where
  "chunks s = map buf (proc_entry_list_head s)"

definition total_inv :: "kstate \<Rightarrow> bool" where
  "total_inv s \<longleftrightarrow> proc_entry_list_size s = sum_list (map buf_size (proc_entry_list_head s))"

definition size_inv :: "kstate \<Rightarrow> bool" where
  "size_inv s \<longleftrightarrow>
     unat (proc_entry_list_size s) =
     sum_list (map (\<lambda>e. unat (buf_size e)) (proc_entry_list_head s))"

definition bufs_inv :: "kstate \<Rightarrow> bool" where
  "bufs_inv s \<longleftrightarrow>
     list_all (\<lambda>e. length (buf e) = unat (buf_size e)) (proc_entry_list_head s)"

definition chunks_nonempty :: "kstate \<Rightarrow> bool" where
  "chunks_nonempty s \<longleftrightarrow> list_all (\<lambda>e. 1 \<le> unat (buf_size e)) (proc_entry_list_head s)"

abbreviation sizes :: "proc_entry_list list \<Rightarrow> nat list" where
  "sizes es \<equiv> map (\<lambda>e. unat (buf_size e)) es"

text \<open>
  The end, as an offset into the concatenation of all chunks, of the chunk that contains
  offset \<open>off\<close> (\<open>chunk_end_char\<close> below says so in terms of \<open>take\<close> and \<open>!\<close>).
\<close>

fun chunk_end :: "byte list list \<Rightarrow> nat \<Rightarrow> nat" where
  "chunk_end [] off = 0"
| "chunk_end (c # cs) off =
     (if off < length c then length c else length c + chunk_end cs (off - length c))"

subsection \<open>Operations and runs\<close>

text \<open>The four entry points of the module as operations on the state.\<close>

datatype op =
    Read nat size_t loff_t
  | Write alloc_env "byte list" size_t loff_t
  | Init bool
  | Exit

fun step :: "op \<Rightarrow> kstate \<Rightarrow> kstate" where
  "step (Read writable len off) s = snd (snd (snd (read_proc_module s writable len off)))"
| "step (Write env usrbuf len off) s = snd (snd (write_proc_module s env usrbuf len off))"
| "step (Init created) s = snd (init_proc_module created s)"
| "step Exit s = exit_proc_module s"

text \<open>
  A sequence of writes, each with its own caller memory, length, offset and allocation
  outcomes; \<open>appends\<close> collects the return values. \<open>transferred\<close> is the part of the
  caller's bytes that the boundary delivers to a write.
\<close>

record write_req =
  wr_env :: alloc_env
  wr_usrbuf :: "byte list"
  wr_len :: size_t
  wr_off :: loff_t

definition transferred :: "write_req \<Rightarrow> byte list" where
  "transferred r = take (unat (wr_len r)) (wr_usrbuf r)"

fun appends :: "kstate \<Rightarrow> write_req list \<Rightarrow> (errno + size_t) list \<times> kstate" where
  "appends s [] = ([], s)"
| "appends s (r # rs) =
     (case write_proc_module s (wr_env r) (wr_usrbuf r) (wr_len r) (wr_off r) of
        (ret, off', s') \<Rightarrow>
          (case appends s' rs of (rets, s'') \<Rightarrow> (ret # rets, s'')))"

fun succeeded :: "errno + size_t \<Rightarrow> bool" where
  "succeeded (Inl e) = False"
| "succeeded (Inr n) = True"

subsection \<open>A concrete store\<close>

text \<open>
  The store after \<^verbatim>\<open>hello\<close> (5 bytes) and \<^verbatim>\<open>world!\<close> (6 bytes) were written to a freshly
  loaded module, every allocation succeeding.
\<close>

definition hello :: "byte list" where
  "hello = [104, 101, 108, 108, 111]"

definition world :: "byte list" where
  "world = [119, 111, 114, 108, 100, 33]"

definition all_ok :: alloc_env where
  "all_ok = \<lparr>entry_ok = True, tmp_ok = True, dup_ok = True\<rparr>"

definition loaded :: kstate where
  "loaded = snd (init_proc_module True
     \<lparr>proc_entry_list_head = [], proc_entry_list_size = 0, kheap = []\<rparr>)"

definition hello_world :: kstate where
  "hello_world = step (Write all_ok world 6 5) (step (Write all_ok hello 5 0) loaded)"

section \<open>Auxiliary facts\<close>

subsection \<open>Words\<close>

lemma of_nat_unat_le: "d \<le> unat (n::64 word) \<Longrightarrow> unat (of_nat d :: 64 word) = d"
  by (metis le_unat_uoi)

lemma sub_eq_self: "d \<le> unat (n::64 word) \<Longrightarrow> (n - of_nat d = n) = (d = 0)"
proof -
  assume a: "d \<le> unat n"
  have "(n - of_nat d = n) = ((of_nat d :: 64 word) = 0)" by simp
  also have "\<dots> = (unat (of_nat d :: 64 word) = 0)" by (simp add: unat_eq_0)
  also have "\<dots> = (d = 0)" using of_nat_unat_le[OF a] by simp
  finally show ?thesis .
qed

lemma unat_next_pos:
  "unat pos + unat sz < 2 ^ 64 \<Longrightarrow> unat (pos + sz :: 64 word) = unat pos + unat sz"
  using unat_add_lem[of pos sz] by simp

lemma sint_nonneg_uint: "0 \<le> sint (x::64 word) \<Longrightarrow> uint x = sint x"
proof -
  assume a: "0 \<le> sint x"
  have "sint x < 2 ^ 64" using sint_lt[of x] by simp
  then have "take_bit 64 (sint x) = sint x" using a by (simp add: take_bit_int_eq_self)
  then show ?thesis using uint_sint[of x] by simp
qed

lemma off_in_range:
  assumes "0 \<le> sint (off :: 64 word)" and "sint off < uint (tsz :: 64 word)"
  shows "off < tsz" and "unat off < unat tsz"
proof -
  from assms have "uint off < uint tsz" by (simp add: sint_nonneg_uint)
  then show "off < tsz" by (simp add: word_less_def)
  then show "unat off < unat tsz" by (simp add: word_less_nat_alt)
qed

lemma to_copy_unat:
  fixes p bs off len :: "64 word"
  assumes "unat p \<le> unat off" and "unat off < unat p + unat bs" and "unat p + unat bs < 2 ^ 64"
  shows "p \<le> off" and "off < p + bs"
    and "unat (off - p) = unat off - unat p"
    and "unat (if p + bs - off > len then len else p + bs - off) =
         min (unat len) (unat p + unat bs - unat off)"
proof -
  have np: "unat (p + bs) = unat p + unat bs" by (rule unat_next_pos[OF assms(3)])
  show 1: "p \<le> off" using assms(1) by (simp add: word_le_nat_alt)
  show 2: "off < p + bs" using assms(2) np by (simp add: word_less_nat_alt)
  show "unat (off - p) = unat off - unat p" using 1 by (rule unat_sub)
  have 3: "unat (p + bs - off) = unat p + unat bs - unat off"
    using 2 np by (simp add: unat_sub)
  show "unat (if p + bs - off > len then len else p + bs - off) =
         min (unat len) (unat p + unat bs - unat off)"
    using 3 by (simp add: word_less_nat_alt min_def)
qed

subsection \<open>The scan\<close>

lemma rd_loop_find_None:
  "rd_find es off pos = None \<Longrightarrow> rd_loop es w len off pos = (Inr 0, off, [])"
  by (induction es arbitrary: pos) (auto simp: Let_def split: if_splits)

lemma rd_loop_find_Some:
  "rd_find es off pos = Some (e, p) \<Longrightarrow> rd_loop es w len off pos = rd_body e p w len off"
  by (induction es arbitrary: pos) (auto simp: Let_def rd_body_def split: if_splits)

lemma rd_find_Some_cover:
  "rd_find es off pos = Some (e, p) \<Longrightarrow> e \<in> set es \<and> p \<le> off \<and> off < p + buf_size e"
  by (induction es arbitrary: pos) (auto simp: Let_def split: if_splits)

lemma rd_body_eq:
  fixes w :: nat
  assumes cov: "p \<le> off" "off < p + buf_size e" and len: "len \<noteq> 0"
  defines "to_copy \<equiv> (if p + buf_size e - off > len then len else p + buf_size e - off)"
  defines "d \<equiv> min (unat to_copy) w"
  shows "to_copy \<noteq> 0"
    and "rd_body e p w len off =
      (if d = 0 then Inl EFAULT else Inr (of_nat d), off + of_nat d,
       take d (drop (unat (off - p)) (buf e)))"
proof -
  from cov(2) have "p + buf_size e - off \<noteq> 0" by auto
  with len show nz: "to_copy \<noteq> 0" by (simp add: to_copy_def)
  have dle: "d \<le> unat to_copy" by (simp add: d_def)
  have r: "(to_copy - of_nat d = to_copy) = (d = 0)" by (rule sub_eq_self[OF dle])
  show "rd_body e p w len off =
      (if d = 0 then Inl EFAULT else Inr (of_nat d), off + of_nat d,
       take d (drop (unat (off - p)) (buf e)))"
    using r unfolding rd_body_def copy_to_user_def Let_def to_copy_def[symmetric] d_def[symmetric]
    by (simp)
qed

lemma chunk_end_gt: "off < length (concat cs) \<Longrightarrow> off < chunk_end cs off"
proof (induction cs arbitrary: off)
  case Nil
  then show ?case by simp
next
  case (Cons c cs)
  show ?case
  proof (cases "off < length c")
    case True
    then show ?thesis by simp
  next
    case False
    with Cons.prems have "off - length c < length (concat cs)" by simp
    from Cons.IH[OF this] False show ?thesis by simp
  qed
qed

lemma chunk_end_le: "chunk_end cs off \<le> length (concat cs)"
  by (induction cs arbitrary: off) auto

lemma chunk_end_char:
  "off < length (concat cs) \<Longrightarrow>
     \<exists>i < length cs. length (concat (take i cs)) \<le> off \<and>
        off < length (concat (take i cs)) + length (cs ! i) \<and>
        chunk_end cs off = length (concat (take i cs)) + length (cs ! i)"
proof (induction cs arbitrary: off)
  case Nil
  then show ?case by simp
next
  case (Cons c cs)
  show ?case
  proof (cases "off < length c")
    case True
    then have "0 < length (c # cs) \<and> length (concat (take 0 (c # cs))) \<le> off \<and>
        off < length (concat (take 0 (c # cs))) + length ((c # cs) ! 0) \<and>
        chunk_end (c # cs) off = length (concat (take 0 (c # cs))) + length ((c # cs) ! 0)"
      by simp
    then show ?thesis by blast
  next
    case False
    with Cons.prems have "off - length c < length (concat cs)" by simp
    from Cons.IH[OF this] obtain i where i: "i < length cs"
      "length (concat (take i cs)) \<le> off - length c"
      "off - length c < length (concat (take i cs)) + length (cs ! i)"
      "chunk_end cs (off - length c) = length (concat (take i cs)) + length (cs ! i)"
      by blast
    with False have "Suc i < length (c # cs) \<and> length (concat (take (Suc i) (c # cs))) \<le> off \<and>
        off < length (concat (take (Suc i) (c # cs))) + length ((c # cs) ! Suc i) \<and>
        chunk_end (c # cs) off = length (concat (take (Suc i) (c # cs))) + length ((c # cs) ! Suc i)"
      by (simp add: not_less) arith
    then show ?thesis by blast
  qed
qed


lemma rd_find_Cons_nat:
  assumes "unat pos + unat (buf_size a) < 2 ^ 64"
  shows "rd_find (a # es) off pos =
     (if unat pos \<le> unat off \<and> unat off < unat pos + unat (buf_size a) then Some (a, pos)
      else rd_find es off (pos + buf_size a))"
  using unat_next_pos[OF assms] by (simp add: Let_def word_le_nat_alt word_less_nat_alt)

lemma rd_find_total:
  assumes "unat pos + sum_list (sizes es) < 2 ^ 64"
    and "unat pos \<le> unat off" and "unat off < unat pos + sum_list (sizes es)"
  shows "\<exists>e p. rd_find es off pos = Some (e, p) \<and> e \<in> set es \<and>
           unat p \<le> unat off \<and> unat off < unat p + unat (buf_size e) \<and>
           unat p + unat (buf_size e) < 2 ^ 64"
  using assms
proof (induction es arbitrary: pos)
  case Nil
  then show ?case by simp
next
  case (Cons a es)
  from Cons.prems(1) have nw: "unat pos + unat (buf_size a) < 2 ^ 64" by simp
  note step = rd_find_Cons_nat[OF nw, of es off]
  show ?case
  proof (cases "unat off < unat pos + unat (buf_size a)")
    case True
    with Cons.prems(2) nw step show ?thesis by simp
  next
    case False
    have np: "unat (pos + buf_size a) = unat pos + unat (buf_size a)"
      by (rule unat_next_pos[OF nw])
    have "\<exists>e p. rd_find es off (pos + buf_size a) = Some (e, p) \<and> e \<in> set es \<and>
           unat p \<le> unat off \<and> unat off < unat p + unat (buf_size e) \<and>
           unat p + unat (buf_size e) < 2 ^ 64"
      using Cons.prems False np by (intro Cons.IH) simp_all
    with False step show ?thesis by auto
  qed
qed

lemma rd_find_slice:
  assumes "list_all (\<lambda>e. length (buf e) = unat (buf_size e)) es"
    and "unat pos + sum_list (sizes es) < 2 ^ 64"
    and "unat pos \<le> unat off"
    and "rd_find es off pos = Some (e, p)"
  shows "unat p + unat (buf_size e) = unat pos + chunk_end (map buf es) (unat off - unat pos) \<and>
         (\<forall>n \<le> unat p + unat (buf_size e) - unat off.
            take n (drop (unat off - unat p) (buf e)) =
            take n (drop (unat off - unat pos) (concat (map buf es))))"
  using assms
proof (induction es arbitrary: pos)
  case Nil
  then show ?case by simp
next
  case (Cons a es)
  from Cons.prems(2) have nw: "unat pos + unat (buf_size a) < 2 ^ 64" by simp
  note step = rd_find_Cons_nat[OF nw, of es off]
  have la: "length (buf a) = unat (buf_size a)" using Cons.prems(1) by simp
  show ?case
  proof (cases "unat off < unat pos + unat (buf_size a)")
    case True
    with Cons.prems(3,4) step have ep: "e = a" "p = pos" by simp_all
    from True Cons.prems(3) have lt: "unat off - unat pos < unat (buf_size a)" by arith
    have "n + (unat off - unat pos) \<le> unat (buf_size a)"
      if "n \<le> unat pos + unat (buf_size a) - unat off" for n
      using that Cons.prems(3) True by arith
    with ep lt la show ?thesis by simp
  next
    case False
    have np: "unat (pos + buf_size a) = unat pos + unat (buf_size a)"
      by (rule unat_next_pos[OF nw])
    from False step Cons.prems(4) have f: "rd_find es off (pos + buf_size a) = Some (e, p)"
      by simp
    have ih: "unat p + unat (buf_size e) =
         unat (pos + buf_size a) + chunk_end (map buf es) (unat off - unat (pos + buf_size a)) \<and>
         (\<forall>n \<le> unat p + unat (buf_size e) - unat off.
            take n (drop (unat off - unat p) (buf e)) =
            take n (drop (unat off - unat (pos + buf_size a)) (concat (map buf es))))"
      using Cons.prems False np f by (intro Cons.IH) simp_all
    have d: "unat off - unat pos - length (buf a) = unat off - unat (pos + buf_size a)"
      using np la by simp
    have nl: "\<not> unat off - unat pos < length (buf a)" using False la by arith
    show ?thesis using ih nl d by (simp add: np la)
  qed
qed


lemma sizes_concat:
  "list_all (\<lambda>e. length (buf e) = unat (buf_size e)) es \<Longrightarrow>
   length (concat (map buf es)) = sum_list (sizes es)"
  by (induction es) simp_all

lemma read_spec:
  assumes si: "size_inv s" and bi: "bufs_inv s"
    and off: "0 \<le> sint off" "sint off < uint (proc_entry_list_size s)" and len: "len \<noteq> 0"
  defines "n \<equiv> min (unat len) (chunk_end (chunks s) (unat off) - unat off)"
  shows "0 < n" and "unat off + n \<le> length (concat (chunks s))"
    and "unat off + n \<le> chunk_end (chunks s) (unat off)"
    and "read_proc_module s w len off =
      (if min n w = 0 then Inl EFAULT else Inr (of_nat (min n w)), off + of_nat (min n w),
       take (min n w) (drop (unat off) (concat (chunks s))), s)"
proof -
  let ?es = "proc_entry_list_head s"
  have lt: "off < proc_entry_list_size s" "unat off < unat (proc_entry_list_size s)"
    using off_in_range[OF off] by simp_all
  have tot: "unat (proc_entry_list_size s) = sum_list (sizes ?es)"
    using si by (simp add: size_inv_def)
  have ba: "list_all (\<lambda>e. length (buf e) = unat (buf_size e)) ?es"
    using bi by (simp add: bufs_inv_def)
  have nw: "unat (0::64 word) + sum_list (sizes ?es) < 2 ^ 64"
    using tot unsigned_less[of "proc_entry_list_size s", where 'a=nat] by simp
  have lo: "unat (0::64 word) \<le> unat off" by simp
  have hi: "unat off < unat (0::64 word) + sum_list (sizes ?es)" using lt tot by simp
  from rd_find_total[OF nw lo hi] obtain e p where
    f: "rd_find ?es off 0 = Some (e, p)" and
    c: "unat p \<le> unat off" "unat off < unat p + unat (buf_size e)"
       "unat p + unat (buf_size e) < 2 ^ 64"
    by blast
  from rd_find_slice[OF ba nw lo f] have
    ce: "unat p + unat (buf_size e) = chunk_end (chunks s) (unat off)" and
    sl: "\<And>k. k \<le> unat p + unat (buf_size e) - unat off \<Longrightarrow>
           take k (drop (unat off - unat p) (buf e)) =
           take k (drop (unat off) (concat (chunks s)))"
    by (simp_all add: chunks_def)
  note tc = to_copy_unat(1-3)[OF c] to_copy_unat(4)[OF c, of len]
  let ?tc = "if p + buf_size e - off > len then len else p + buf_size e - off"
  have n: "unat ?tc = n" using tc(4) ce by (simp add: n_def)
  have lenpos: "0 < unat len" using len by (simp add: unat_gt_0)
  show "0 < n" using lenpos c(2) ce by (simp add: n_def)
  show 3: "unat off + n \<le> chunk_end (chunks s) (unat off)"
    using c(2) ce by (simp add: n_def)
  then show "unat off + n \<le> length (concat (chunks s))"
    using chunk_end_le[of "chunks s" "unat off"] by simp
  have k: "min n w \<le> unat p + unat (buf_size e) - unat off"
    using 3 ce by simp
  have body: "rd_body e p w len off =
      (if min n w = 0 then Inl EFAULT else Inr (of_nat (min n w)), off + of_nat (min n w),
       take (min n w) (drop (unat off) (concat (chunks s))))"
    using rd_body_eq(2)[OF tc(1) tc(2) len, of w] sl[OF k] by (simp only: n tc(3))
  show "read_proc_module s w len off =
      (if min n w = 0 then Inl EFAULT else Inr (of_nat (min n w)), off + of_nat (min n w),
       take (min n w) (drop (unat off) (concat (chunks s))), s)"
    using lt(1) off(1) len rd_loop_find_Some[OF f, of w len] body
    by (simp add: read_proc_module_def not_le[symmetric])
qed

text \<open>
  On a store of fewer than \<open>2 ^ 63\<close> bytes the test \<^verbatim>\<open>off >= proc_entry_list_size\<close> is
  true of every negative \<open>off\<close>, so the branch \<^verbatim>\<open>else if (off < 0)\<close> of read is not taken.
\<close>

lemma sint_neg_uint: "sint (x::64 word) < 0 \<Longrightarrow> 2 ^ 63 \<le> uint x"
proof -
  assume a: "sint x < 0"
  have lo: "- (2 ^ 63) \<le> sint x" using sint_ge[of x] by simp
  have "uint x = sint x mod 2 ^ 64" using uint_sint[of x] by (simp add: take_bit_eq_mod)
  also have "\<dots> = (sint x + 2 ^ 64) mod 2 ^ 64" by simp
  also have "\<dots> = sint x + 2 ^ 64" using a lo by (intro mod_pos_pos_trivial) simp_all
  finally show ?thesis using lo by simp
qed

lemma read_negative_offset:
  assumes "sint off < 0" and "0 \<le> sint (proc_entry_list_size s)"
  shows "read_proc_module s writable len off = (Inr 0, off, [], s)"
proof -
  have "uint (proc_entry_list_size s) < 2 ^ 63"
    using assms(2) sint_lt[of "proc_entry_list_size s"] by (simp add: sint_nonneg_uint)
  moreover have "2 ^ 63 \<le> uint off"
    using assms(1) by (rule sint_neg_uint)
  ultimately have "proc_entry_list_size s \<le> off" by (simp add: word_le_def)
  then show ?thesis by (simp add: read_proc_module_def)
qed

subsection \<open>The allocator and write\<close>

lemma fresh_gt: "x \<in> set h \<Longrightarrow> x < fresh h"
proof -
  assume "x \<in> set h"
  then have "x \<le> Max (set (0 # h))" by simp
  then show ?thesis unfolding fresh_def Max.set_eq_fold by simp
qed

lemma fresh_neq_hd: "fresh (x # h) \<noteq> x"
  using fresh_gt[of x "x # h"] by simp

lemma write_cases:
  "write_proc_module s env u len off =
     (if len = 0 then (Inr 0, off, s)
      else if sint off < 0 then (Inl EINVAL, off, s)
      else if \<not> entry_ok env then (Inl ENOMEM, off, s)
      else if \<not> tmp_ok env then (Inl ENOMEM, off, s)
      else if u = [] then (Inl EFAULT, off, s)
      else if \<not> dup_ok env then (Inl ENOMEM, off, s)
      else (let c = take (unat len) u; n = of_nat (length c);
                new_entry = fresh (kheap s);
                tmp_ptr = fresh (new_entry # kheap s);
                b_ptr = fresh (tmp_ptr # new_entry # kheap s)
            in (Inr n, off + n,
                s\<lparr>proc_entry_list_head := proc_entry_list_head s @
                     [\<lparr>self_ptr = new_entry, buf_ptr = b_ptr, buf = c, buf_size = n\<rparr>],
                  proc_entry_list_size := proc_entry_list_size s + n,
                  kheap := b_ptr # new_entry # kheap s\<rparr>)))"
proof -
  define c where "c = take (unat len) u"
  define pad :: "byte list" where "pad = replicate (unat len - length u) 0"
  have lc: "length c \<le> unat len" by (simp add: c_def)
  have cfu: "copy_from_user (replicate (unat len) 0) u len = (c @ pad, len - of_nat (length c))"
    by (simp add: copy_from_user_def Let_def min_def c_def pad_def)
  have un: "unat (of_nat (length c) :: 64 word) = length c"
    by (rule of_nat_unat_le[OF lc])
  have "(len - of_nat (length c) = len) = (length c = 0)"
    by (rule sub_eq_self[OF lc])
  also have "\<dots> = (unat len = 0 \<or> u = [])"
    by (cases u) (simp_all add: c_def min_def)
  finally have z: "(len - of_nat (length c) = len) = (len = 0 \<or> u = [])"
    by (simp add: unat_eq_0)
  have dup: "take (length c) (c @ pad) = c" by simp
  have fr: "fresh (x # h) \<noteq> x" "x \<noteq> fresh (x # h)" for x h
    using fresh_neq_hd[of x h] by auto
  show ?thesis
    unfolding c_def[symmetric]
    by (simp add: write_proc_module_def kmalloc_def kzalloc_def kmemdup_def kfree_def Let_def
        cfu z un dup fr del: take_append append_take_drop_id)
qed

subsection \<open>The concrete store\<close>

lemma hello_world_eq:
  "hello_world =
     \<lparr>proc_entry_list_head =
        [\<lparr>self_ptr = 1, buf_ptr = 3, buf = hello, buf_size = 5\<rparr>,
         \<lparr>self_ptr = 4, buf_ptr = 6, buf = world, buf_size = 6\<rparr>],
      proc_entry_list_size = 11, kheap = [6, 4, 3, 1]\<rparr>"
  by (simp add: hello_world_def loaded_def init_proc_module_def write_cases all_ok_def hello_def world_def fresh_def Let_def)

lemma hello_world_inv: "size_inv hello_world" "bufs_inv hello_world"
  by (simp_all add: size_inv_def bufs_inv_def hello_world_eq hello_def world_def)

lemma hello_world_chunks: "chunks hello_world = [hello, world]"
  by (simp add: chunks_def hello_world_eq)

subsection \<open>Steps, invariants and runs of writes\<close>

lemma take_nonempty: "len \<noteq> 0 \<Longrightarrow> u \<noteq> [] \<Longrightarrow> take (unat len) u \<noteq> []" for len :: "64 word"
  by (cases u) (simp_all add: unat_eq_0)

lemma unat_of_nat_take:
  "unat (of_nat (length (take (unat len) u)) :: 64 word) = length (take (unat len) u)"
  for len :: "64 word"
  by (rule of_nat_unat_le[of _ len]) simp

lemma write_state:
  "snd (snd (write_proc_module s env u len off)) = s \<and>
     (fst (write_proc_module s env u len off) = Inr 0 \<and> len = 0 \<or>
      (\<exists>e. fst (write_proc_module s env u len off) = Inl e)) \<or>
   (\<exists>entry h. snd (snd (write_proc_module s env u len off)) =
        s\<lparr>proc_entry_list_head := proc_entry_list_head s @ [entry],
          proc_entry_list_size := proc_entry_list_size s + buf_size entry, kheap := h\<rparr> \<and>
      fst (write_proc_module s env u len off) = Inr (buf_size entry) \<and>
      buf entry = take (unat len) u \<and> buf entry \<noteq> [] \<and>
      unat (buf_size entry) = length (buf entry))"
proof (cases "len \<noteq> 0 \<and> 0 \<le> sint off \<and> entry_ok env \<and> tmp_ok env \<and> u \<noteq> [] \<and> dup_ok env")
  case True
  define entry where "entry =
     \<lparr>self_ptr = fresh (kheap s),
      buf_ptr = fresh (fresh (fresh (kheap s) # kheap s) # fresh (kheap s) # kheap s),
      buf = take (unat len) u,
      buf_size = (of_nat (length (take (unat len) u)) :: 64 word)\<rparr>"
  have 1: "buf entry = take (unat len) u" by (simp add: entry_def)
  have 2: "buf entry \<noteq> []" unfolding 1 using True by (intro take_nonempty) simp_all
  have 3: "unat (buf_size entry) = length (buf entry)"
    using unat_of_nat_take[of len u] by (simp add: entry_def)
  have 4: "buf_size entry = of_nat (length (take (unat len) u))" by (simp add: entry_def)
  have w: "write_proc_module s env u len off =
      (Inr (buf_size entry), off + buf_size entry,
       s\<lparr>proc_entry_list_head := proc_entry_list_head s @ [entry],
         proc_entry_list_size := proc_entry_list_size s + buf_size entry,
         kheap := buf_ptr entry # self_ptr entry # kheap s\<rparr>)"
    unfolding 4 using True by (simp add: write_cases Let_def entry_def)
  have "\<exists>h. snd (snd (write_proc_module s env u len off)) =
        s\<lparr>proc_entry_list_head := proc_entry_list_head s @ [entry],
          proc_entry_list_size := proc_entry_list_size s + buf_size entry, kheap := h\<rparr> \<and>
      fst (write_proc_module s env u len off) = Inr (buf_size entry) \<and>
      buf entry = take (unat len) u \<and> buf entry \<noteq> [] \<and>
      unat (buf_size entry) = length (buf entry)"
    using 1 2 3 by (intro exI[of _ "buf_ptr entry # self_ptr entry # kheap s"]) (simp add: w)
  then show ?thesis by blast
next
  case False
  then show ?thesis by (intro disjI1) (auto simp: write_cases)
qed

lemma read_state: "snd (snd (snd (read_proc_module s w len off))) = s"
  by (simp add: read_proc_module_def split: prod.splits)

lemma step_cases:
  "step op s = s \<or>
   (\<exists>h. step op s = s\<lparr>proc_entry_list_head := [], proc_entry_list_size := 0, kheap := h\<rparr>) \<or>
   (\<exists>entry h. step op s =
        s\<lparr>proc_entry_list_head := proc_entry_list_head s @ [entry],
          proc_entry_list_size := proc_entry_list_size s + buf_size entry, kheap := h\<rparr> \<and>
      buf entry \<noteq> [] \<and> unat (buf_size entry) = length (buf entry))"
proof (cases op)
  case (Read w len off)
  then show ?thesis by (simp add: read_state)
next
  case (Write env u len off)
  with write_state[of s env u len off] show ?thesis by auto
next
  case (Init c)
  show ?thesis
  proof (cases c)
    case True
    with Init have "step op s = s\<lparr>proc_entry_list_head := [], proc_entry_list_size := 0,
        kheap := kheap s\<rparr>"
      by (simp add: init_proc_module_def)
    then show ?thesis by blast
  next
    case False
    with Init show ?thesis by (simp add: init_proc_module_def)
  qed
next
  case Exit
  then have "step op s = s\<lparr>proc_entry_list_head := [], proc_entry_list_size := 0,
      kheap := exit_loop (proc_entry_list_head s) (kheap s)\<rparr>"
    by (simp add: exit_proc_module_def)
  then show ?thesis by blast
qed

lemma step_total_inv: "total_inv s \<Longrightarrow> total_inv (step op s)"
  using step_cases[of op s] by (auto simp: total_inv_def)

lemma step_bufs_inv: "bufs_inv s \<Longrightarrow> bufs_inv (step op s)"
  using step_cases[of op s] by (auto simp: bufs_inv_def)

lemma step_chunks_nonempty: "chunks_nonempty s \<Longrightarrow> chunks_nonempty (step op s)"
  using step_cases[of op s] by (auto simp: chunks_nonempty_def Suc_le_eq)

lemma word_sum_sizes:
  "sum_list (map buf_size es) = (of_nat (sum_list (sizes es)) :: 64 word)"
  by (induction es) simp_all

lemma size_inv_iff:
  "size_inv s \<longleftrightarrow> total_inv s \<and> sum_list (sizes (proc_entry_list_head s)) < 2 ^ 64"
proof
  assume a: "size_inv s"
  then have e: "unat (proc_entry_list_size s) = sum_list (sizes (proc_entry_list_head s))"
    by (simp add: size_inv_def)
  have "proc_entry_list_size s = of_nat (unat (proc_entry_list_size s))" by simp
  then have "total_inv s" unfolding total_inv_def word_sum_sizes e .
  moreover have "sum_list (sizes (proc_entry_list_head s)) < 2 ^ 64"
    using unsigned_less[of "proc_entry_list_size s", where 'a=nat] e by simp
  ultimately show "total_inv s \<and> sum_list (sizes (proc_entry_list_head s)) < 2 ^ 64" ..
next
  assume a: "total_inv s \<and> sum_list (sizes (proc_entry_list_head s)) < 2 ^ 64"
  then have "proc_entry_list_size s = of_nat (sum_list (sizes (proc_entry_list_head s)))"
    by (simp add: total_inv_def word_sum_sizes)
  then have "unat (proc_entry_list_size s) = sum_list (sizes (proc_entry_list_head s)) mod 2 ^ 64"
    by (simp add: unat_of_nat)
  with a show "size_inv s" by (simp add: size_inv_def)
qed


lemma write_succeeded:
  assumes w: "write_proc_module s env u len off = (ret, off', s1)" and ok: "succeeded ret"
  shows "ret = Inr (of_nat (length (take (unat len) u))) \<and>
    chunks s1 = chunks s @ filter (\<lambda>c. c \<noteq> []) [take (unat len) u] \<and>
    proc_entry_list_size s1 = proc_entry_list_size s + of_nat (length (take (unat len) u))"
proof -
  from w have f: "fst (write_proc_module s env u len off) = ret"
    and g: "snd (snd (write_proc_module s env u len off)) = s1" by simp_all
  from write_state[of s env u len off] show ?thesis
  proof (elim disjE conjE exE)
    assume "snd (snd (write_proc_module s env u len off)) = s"
      "fst (write_proc_module s env u len off) = Inr 0" "len = 0"
    with f g show ?thesis by simp
  next
    fix e assume "fst (write_proc_module s env u len off) = Inl e"
    with f have "ret = Inl e" by simp
    with ok show ?thesis by simp
  next
    fix entry h
    assume a: "snd (snd (write_proc_module s env u len off)) =
        s\<lparr>proc_entry_list_head := proc_entry_list_head s @ [entry],
          proc_entry_list_size := proc_entry_list_size s + buf_size entry, kheap := h\<rparr>"
      "fst (write_proc_module s env u len off) = Inr (buf_size entry)"
      "buf entry = take (unat len) u" "buf entry \<noteq> []"
      "unat (buf_size entry) = length (buf entry)"
    have "buf_size entry = of_nat (unat (buf_size entry))" by simp
    then have b: "buf_size entry = of_nat (length (take (unat len) u))"
      unfolding a(5) a(3) .
    have ne: "take (unat len) u \<noteq> []" using a(3,4) by simp
    have c: "chunks s1 = chunks s @ [take (unat len) u]"
      using a(1,3) g by (simp add: chunks_def)
    have d: "proc_entry_list_size s1 = proc_entry_list_size s + buf_size entry"
      using a(1) g by simp
    have e: "ret = Inr (buf_size entry)" using a(2) f by simp
    show ?thesis unfolding c d e b using ne by simp
  qed
qed

lemma appends_succeeded:
  "appends s rs = (rets, s') \<Longrightarrow> list_all succeeded rets \<Longrightarrow>
     rets = map (\<lambda>r. Inr (of_nat (length (transferred r)))) rs \<and>
     chunks s' = chunks s @ filter (\<lambda>c. c \<noteq> []) (map transferred rs) \<and>
     proc_entry_list_size s' =
       proc_entry_list_size s + of_nat (sum_list (map (\<lambda>r. length (transferred r)) rs))"
proof (induction rs arbitrary: s rets s')
  case Nil
  then show ?case by simp
next
  case (Cons r rs)
  obtain ret off' s1 where w:
    "write_proc_module s (wr_env r) (wr_usrbuf r) (wr_len r) (wr_off r) = (ret, off', s1)"
    by (cases "write_proc_module s (wr_env r) (wr_usrbuf r) (wr_len r) (wr_off r)") auto
  obtain rets1 s2 where a: "appends s1 rs = (rets1, s2)"
    by (cases "appends s1 rs") auto
  from Cons.prems(1) w a have r: "rets = ret # rets1" and s: "s' = s2" by simp_all
  from Cons.prems(2) r have ok: "succeeded ret" "list_all succeeded rets1" by simp_all
  note h = write_succeeded[OF w ok(1), folded transferred_def]
  note ih = Cons.IH[OF a ok(2)]
  from h ih show ?case unfolding r s by (simp add: transferred_def)
qed


lemma fold_total_inv: "total_inv s \<Longrightarrow> total_inv (fold step ops s)"
  by (induction ops arbitrary: s) (simp_all add: step_total_inv)

lemma fold_bufs_inv: "bufs_inv s \<Longrightarrow> bufs_inv (fold step ops s)"
  by (induction ops arbitrary: s) (simp_all add: step_bufs_inv)

lemma fold_chunks_nonempty: "chunks_nonempty s \<Longrightarrow> chunks_nonempty (fold step ops s)"
  by (induction ops arbitrary: s) (simp_all add: step_chunks_nonempty)

lemma hello_world_appends:
  "appends (step (Init True) \<lparr>proc_entry_list_head = [], proc_entry_list_size = 0, kheap = []\<rparr>)
     [\<lparr>wr_env = all_ok, wr_usrbuf = hello, wr_len = 5, wr_off = 0\<rparr>,
      \<lparr>wr_env = all_ok, wr_usrbuf = world, wr_len = 6, wr_off = 5\<rparr>] =
   ([Inr 5, Inr 6], hello_world)"
  by (simp add: init_proc_module_def write_cases all_ok_def hello_def world_def
      fresh_def Let_def hello_world_eq)

text \<open>
  The invariants that the theorems on read assume hold in every state the module reaches
  after loading.
\<close>

lemma reachable_bufs_inv: "bufs_inv (fold step ops (step (Init True) s0))"
  by (rule fold_bufs_inv) (simp add: init_proc_module_def bufs_inv_def)

lemma reachable_size_inv:
  "sum_list (sizes (proc_entry_list_head (fold step ops (step (Init True) s0)))) < 2 ^ 64 \<Longrightarrow>
   size_inv (fold step ops (step (Init True) s0))"
  unfolding size_inv_iff
  by (intro conjI fold_total_inv) (simp_all add: init_proc_module_def total_inv_def)

lemma hello_world_step:
  "step (Write all_ok hello 5 11) hello_world =
     \<lparr>proc_entry_list_head =
        [\<lparr>self_ptr = 1, buf_ptr = 3, buf = hello, buf_size = 5\<rparr>,
         \<lparr>self_ptr = 4, buf_ptr = 6, buf = world, buf_size = 6\<rparr>,
         \<lparr>self_ptr = 7, buf_ptr = 9, buf = hello, buf_size = 5\<rparr>],
      proc_entry_list_size = 16, kheap = [9, 7, 6, 4, 3, 1]\<rparr>"
  by (simp add: write_cases hello_world_eq all_ok_def Let_def fresh_def) (simp add: hello_def)

section \<open>The claims\<close>

text \<open>
  C1. On a store that satisfies its invariants, take a read at an offset
  \<open>0 \<le> off < total_size\<close> with \<open>max_length > 0\<close>, and let \<open>n\<close> be the smaller of \<open>max_length\<close>
  and the distance from \<open>off\<close> to the end of the chunk containing \<open>off\<close>. Then \<open>n\<close> is
  positive and the slice of \<open>n\<close> bytes of the concatenation of all chunks that begins at
  \<open>off\<close> ends at or before the end of that chunk. With \<open>d\<close> the number of bytes the caller's
  buffer takes (\<open>n\<close> or fewer): the read delivers exactly the first \<open>d\<close> bytes of that slice,
  returns \<open>d\<close> and advances the cursor by \<open>d\<close> when \<open>d > 0\<close>, and returns \<^verbatim>\<open>-EFAULT\<close> when
  \<open>d = 0\<close>. In particular, when the caller's buffer takes all \<open>n\<close> bytes the read returns
  \<open>n\<close>, exactly that slice, and the cursor advanced by \<open>n\<close>; in no case does it deliver a
  byte of a later chunk.
\<close>

theorem read_returns_chunk_slice:
  assumes "size_inv s" and "bufs_inv s"
    and "0 \<le> sint off" and "sint off < uint (proc_entry_list_size s)" and "len \<noteq> 0"
  shows "let n = min (unat len) (chunk_end (chunks s) (unat off) - unat off);
             d = min n writable in
      0 < n \<and> unat off + n \<le> chunk_end (chunks s) (unat off) \<and>
      length (take n (drop (unat off) (concat (chunks s)))) = n \<and>
      read_proc_module s writable len off =
        (if d = 0 then Inl EFAULT else Inr (of_nat d), off + of_nat d,
         take d (drop (unat off) (concat (chunks s))), s) \<and>
      (n \<le> writable \<longrightarrow>
         read_proc_module s writable len off =
           (Inr (of_nat n), off + of_nat n, take n (drop (unat off) (concat (chunks s))), s))"
proof -
  define n where "n = min (unat len) (chunk_end (chunks s) (unat off) - unat off)"
  define d where "d = min n writable"
  note r = read_spec(1-3)[OF assms, folded n_def]
    read_spec(4)[OF assms, of writable, folded n_def, folded d_def]
  have 1: "0 < n" by (rule r(1))
  have 2: "unat off + n \<le> chunk_end (chunks s) (unat off)" by (rule r(3))
  have 3: "length (take n (drop (unat off) (concat (chunks s)))) = n" using r(2) by simp
  have 4: "read_proc_module s writable len off =
        (if d = 0 then Inl EFAULT else Inr (of_nat d), off + of_nat d,
         take d (drop (unat off) (concat (chunks s))), s)"
    by (rule r(4))
  have 5: "read_proc_module s writable len off =
           (Inr (of_nat n), off + of_nat n, take n (drop (unat off) (concat (chunks s))), s)"
    if "n \<le> writable"
  proof -
    from that have "d = n" by (simp add: d_def)
    with 1 4 show ?thesis by simp
  qed
  from 1 2 3 4 5 show ?thesis unfolding d_def[symmetric] n_def[symmetric] Let_def by blast
qed

theorem read_returns_chunk_slice_witness:
  "size_inv hello_world \<and> bufs_inv hello_world \<and> 0 \<le> sint (2 :: loff_t) \<and>
   sint (2 :: loff_t) < uint (proc_entry_list_size hello_world) \<and> (10 :: size_t) \<noteq> 0 \<and>
   chunk_end (chunks hello_world) 2 = 5 \<and>
   read_proc_module hello_world 64 10 2 = (Inr 3, 5, [108, 108, 111], hello_world)"
proof -
  have h: "size_inv hello_world" "bufs_inv hello_world" "0 \<le> sint (2 :: loff_t)"
    "sint (2 :: loff_t) < uint (proc_entry_list_size hello_world)" "(10 :: size_t) \<noteq> 0"
    by (simp_all add: hello_world_inv) (simp add: hello_world_eq)
  have ce: "chunk_end (chunks hello_world) 2 = 5"
    by (simp add: hello_world_chunks hello_def)
  have sl: "take 3 (drop 2 (concat (chunks hello_world))) = [108, 108, 111]"
    by (simp add: hello_world_chunks hello_def world_def)
  from read_returns_chunk_slice[OF h, of 64]
  have "read_proc_module hello_world 64 10 2 = (Inr 3, 5, [108, 108, 111], hello_world)"
    by (simp add: Let_def ce sl)
  with h ce show ?thesis by blast
qed

text \<open>
  C1 without the condition on the transfer does not hold. On the store holding \<^verbatim>\<open>hello\<close>
  and \<^verbatim>\<open>world!\<close>, a read of up to 10 bytes at offset 2 has \<open>n = 3\<close> and the slice is
  \<^verbatim>\<open>llo\<close>; with a caller's buffer that faults after one byte the read succeeds with one
  byte, \<^verbatim>\<open>l\<close>, and not with the slice.
\<close>

theorem read_short_transfer_counterexample:
  "size_inv hello_world \<and> bufs_inv hello_world \<and> 0 \<le> sint (2 :: loff_t) \<and>
   sint (2 :: loff_t) < uint (proc_entry_list_size hello_world) \<and> (10 :: size_t) \<noteq> 0 \<and>
   min (unat (10 :: size_t)) (chunk_end (chunks hello_world) 2 - 2) = 3 \<and>
   take 3 (drop 2 (concat (chunks hello_world))) = [108, 108, 111] \<and>
   read_proc_module hello_world 1 10 2 = (Inr 1, 3, [108], hello_world) \<and>
   fst (snd (snd (read_proc_module hello_world 1 10 2))) \<noteq>
     take 3 (drop 2 (concat (chunks hello_world)))"
proof -
  have h: "size_inv hello_world" "bufs_inv hello_world" by (rule hello_world_inv)+
  have o: "0 \<le> sint (2 :: loff_t)" "sint (2 :: loff_t) < uint (proc_entry_list_size hello_world)"
    "(10 :: size_t) \<noteq> 0"
    by (simp_all add: hello_world_eq)
  have n: "min (unat (10 :: size_t)) (chunk_end (chunks hello_world) 2 - 2) = 3"
    by (simp add: hello_world_chunks hello_def)
  have sl: "take 3 (drop 2 (concat (chunks hello_world))) = [108, 108, 111]"
    by (simp add: hello_world_chunks hello_def world_def)
  have r: "read_proc_module hello_world 1 10 2 = (Inr 1, 3, [108], hello_world)"
    by (simp add: read_proc_module_def hello_world_eq copy_to_user_def Let_def hello_def)
  have d: "fst (snd (snd (read_proc_module hello_world 1 10 2))) \<noteq>
     take 3 (drop 2 (concat (chunks hello_world)))"
    unfolding r sl by simp
  from h o n sl r d show ?thesis by blast
qed

text \<open>
  C2. A negative offset with a non-zero length: write returns \<^verbatim>\<open>-EINVAL\<close>, read does not.
  On the store holding \<^verbatim>\<open>hello\<close> and \<^verbatim>\<open>world!\<close>, a read of one byte at offset \<open>-1\<close>
  returns 0: converted to \<^verbatim>\<open>unsigned long long\<close> for the comparison with
  \<^verbatim>\<open>proc_entry_list_size\<close>, \<open>-1\<close> is \<open>2 ^ 64 - 1\<close>, the first test of read succeeds and the
  test \<^verbatim>\<open>off < 0\<close> behind it is never reached. Both leave the store and the cursor as
  they were.
\<close>

theorem read_negative_offset_returns_zero:
  "read_proc_module hello_world 16 1 (- 1) = (Inr 0, - 1, [], hello_world) \<and>
   sint (- 1 :: loff_t) < 0 \<and>
   write_proc_module hello_world all_ok hello 1 (- 1) = (Inl EINVAL, - 1, hello_world)"
  by (simp add: read_proc_module_def write_cases hello_world_eq)

text \<open>
  C3. Starting from the freshly loaded (empty) store, after any sequence of writes that all
  succeed, the chunk sequence is the sequence of the byte strings transferred, in the order
  of the writes (a write of length 0 succeeds and transfers nothing, so it contributes no
  chunk), every write returned the number of bytes it transferred, and
  \<^verbatim>\<open>proc_entry_list_size\<close> is the sum of these numbers: as a \<^verbatim>\<open>size_t\<close> always, and as a
  natural number whenever the sum fits into a \<^verbatim>\<open>size_t\<close>. The invariant that
  \<^verbatim>\<open>proc_entry_list_size\<close> is the sum of all \<^verbatim>\<open>buf_size\<close> is kept by every operation (read,
  write, load, unload), in \<^verbatim>\<open>size_t\<close> arithmetic always, and over the natural numbers as
  long as the chunks together fit into a \<^verbatim>\<open>size_t\<close>; it holds in every state the module
  reaches after loading.
\<close>

theorem total_size_is_sum_of_chunks:
  "(appends (step (Init True) s0) reqs = (rets, s) \<and> list_all succeeded rets \<longrightarrow>
      rets = map (\<lambda>r. Inr (of_nat (length (transferred r)))) reqs \<and>
      chunks s = filter (\<lambda>c. c \<noteq> []) (map transferred reqs) \<and>
      proc_entry_list_size s = of_nat (sum_list (map (\<lambda>r. length (transferred r)) reqs)) \<and>
      (sum_list (map (\<lambda>r. length (transferred r)) reqs) < 2 ^ 64 \<longrightarrow>
         unat (proc_entry_list_size s) = sum_list (map (\<lambda>r. length (transferred r)) reqs))) \<and>
   (total_inv s1 \<longrightarrow> total_inv (step op s1)) \<and>
   total_inv (fold step ops (step (Init True) s0)) \<and>
   (size_inv s1 \<and> sum_list (sizes (proc_entry_list_head (step op s1))) < 2 ^ 64 \<longrightarrow>
      size_inv (step op s1))"
proof (intro conjI impI)
  assume a: "appends (step (Init True) s0) reqs = (rets, s) \<and> list_all succeeded rets"
  note r = appends_succeeded[OF conjunct1[OF a] conjunct2[OF a]]
  show "rets = map (\<lambda>r. Inr (of_nat (length (transferred r)))) reqs" using r by simp
  show "chunks s = filter (\<lambda>c. c \<noteq> []) (map transferred reqs)"
    using r by (simp add: init_proc_module_def chunks_def)
  show e: "proc_entry_list_size s = of_nat (sum_list (map (\<lambda>r. length (transferred r)) reqs))"
    using r by (simp add: init_proc_module_def)
  assume "sum_list (map (\<lambda>r. length (transferred r)) reqs) < 2 ^ 64"
  then show "unat (proc_entry_list_size s) = sum_list (map (\<lambda>r. length (transferred r)) reqs)"
    unfolding e by (simp add: unat_of_nat)
next
  assume "total_inv s1" then show "total_inv (step op s1)" by (rule step_total_inv)
next
  have "total_inv (step (Init True) s0)" by (simp add: init_proc_module_def total_inv_def)
  then show "total_inv (fold step ops (step (Init True) s0))"
    by (rule fold_total_inv)
next
  assume "size_inv s1 \<and> sum_list (sizes (proc_entry_list_head (step op s1))) < 2 ^ 64"
  then show "size_inv (step op s1)" by (simp add: size_inv_iff step_total_inv)
qed

theorem total_size_is_sum_of_chunks_witness:
  "appends (step (Init True) \<lparr>proc_entry_list_head = [], proc_entry_list_size = 0, kheap = []\<rparr>)
     [\<lparr>wr_env = all_ok, wr_usrbuf = hello, wr_len = 5, wr_off = 0\<rparr>,
      \<lparr>wr_env = all_ok, wr_usrbuf = world, wr_len = 6, wr_off = 5\<rparr>] =
     ([Inr 5, Inr 6], hello_world) \<and>
   list_all succeeded [Inr 5, Inr 6 :: errno + size_t] \<and>
   chunks hello_world = [hello, world] \<and>
   proc_entry_list_size hello_world = 11 \<and>
   unat (proc_entry_list_size hello_world) = 5 + 6 \<and>
   total_inv hello_world \<and> total_inv (step (Write all_ok hello 5 11) hello_world) \<and>
   size_inv hello_world \<and>
   sum_list (sizes (proc_entry_list_head (step (Write all_ok hello 5 11) hello_world))) < 2 ^ 64 \<and>
   size_inv (step (Write all_ok hello 5 11) hello_world)"
proof -
  let ?reqs = "[\<lparr>wr_env = all_ok, wr_usrbuf = hello, wr_len = 5, wr_off = 0\<rparr>,
      \<lparr>wr_env = all_ok, wr_usrbuf = world, wr_len = 6, wr_off = 5\<rparr>]"
  have ok: "list_all succeeded [Inr 5, Inr 6 :: errno + size_t]" by simp
  have t: "map transferred ?reqs = [hello, world]"
    by (simp add: transferred_def hello_def world_def)
  have l: "sum_list (map (\<lambda>r. length (transferred r)) ?reqs) = 11"
    by (simp add: transferred_def hello_def world_def)
  note th = total_size_is_sum_of_chunks[THEN conjunct1, rule_format,
      OF conjI[OF hello_world_appends ok]]
  have c: "chunks hello_world = [hello, world]"
    using th[THEN conjunct2, THEN conjunct1] unfolding t by (simp add: hello_def world_def)
  have z: "proc_entry_list_size hello_world = 11"
    using th[THEN conjunct2, THEN conjunct2, THEN conjunct1] unfolding l by simp
  have u: "unat (proc_entry_list_size hello_world) = 5 + 6"
    using th[THEN conjunct2, THEN conjunct2, THEN conjunct2] unfolding l by simp
  have ti: "total_inv hello_world" by (simp add: total_inv_def hello_world_eq)
  have ti': "total_inv (step (Write all_ok hello 5 11) hello_world)"
    by (rule total_size_is_sum_of_chunks[THEN conjunct2, THEN conjunct1, rule_format, OF ti])
  have si: "size_inv hello_world" by (rule hello_world_inv)
  have f: "sum_list (sizes (proc_entry_list_head (step (Write all_ok hello 5 11) hello_world)))
      < 2 ^ 64"
    unfolding hello_world_step by simp
  have si': "size_inv (step (Write all_ok hello 5 11) hello_world)"
    by (rule total_size_is_sum_of_chunks[THEN conjunct2, THEN conjunct2, THEN conjunct2,
          rule_format, OF conjI[OF si f]])
  from hello_world_appends ok c z u ti ti' si f si' show ?thesis by blast
qed

text \<open>
  C4. A write with a non-empty request and a non-negative offset does the same for every
  such offset: the return value and the resulting state do not depend on \<open>off\<close> (only the
  cursor handed back does). When it succeeds, the chunk sequence is the old one with one
  new entry at its tail, holding the bytes the caller's memory delivered.
\<close>

theorem write_ignores_offset:
  assumes "len \<noteq> 0" and "0 \<le> sint off" and "0 \<le> sint off2"
  shows "fst (write_proc_module s env usrbuf len off) = fst (write_proc_module s env usrbuf len off2) \<and>
     snd (snd (write_proc_module s env usrbuf len off)) =
     snd (snd (write_proc_module s env usrbuf len off2)) \<and>
     (succeeded (fst (write_proc_module s env usrbuf len off)) \<longrightarrow>
        (\<exists>entry. proc_entry_list_head (snd (snd (write_proc_module s env usrbuf len off))) =
                  proc_entry_list_head s @ [entry] \<and>
                buf entry = take (unat len) usrbuf \<and>
                fst (write_proc_module s env usrbuf len off) = Inr (buf_size entry)))"
proof (cases "entry_ok env \<and> tmp_ok env \<and> usrbuf \<noteq> [] \<and> dup_ok env")
  case True
  with assms show ?thesis by (simp add: write_cases Let_def)
next
  case False
  with assms have "\<exists>e. write_proc_module s env usrbuf len off = (Inl e, off, s) \<and>
     write_proc_module s env usrbuf len off2 = (Inl e, off2, s)"
    by (auto simp: write_cases)
  then show ?thesis by auto
qed

theorem write_ignores_offset_witness:
  "(5 :: size_t) \<noteq> 0 \<and> 0 \<le> sint (0 :: loff_t) \<and> 0 \<le> sint (11 :: loff_t) \<and>
   fst (write_proc_module hello_world all_ok hello 5 0) = fst (write_proc_module hello_world all_ok hello 5 11) \<and>
   snd (snd (write_proc_module hello_world all_ok hello 5 0)) =
     snd (snd (write_proc_module hello_world all_ok hello 5 11)) \<and>
   succeeded (fst (write_proc_module hello_world all_ok hello 5 0)) \<and>
   chunks (snd (snd (write_proc_module hello_world all_ok hello 5 0))) = [hello, world, hello]"
proof -
  have h: "(5 :: size_t) \<noteq> 0" "0 \<le> sint (0 :: loff_t)" "0 \<le> sint (11 :: loff_t)" by simp_all
  have w: "write_proc_module hello_world all_ok hello 5 0 =
     (Inr 5, 5, \<lparr>proc_entry_list_head =
        [\<lparr>self_ptr = 1, buf_ptr = 3, buf = hello, buf_size = 5\<rparr>,
         \<lparr>self_ptr = 4, buf_ptr = 6, buf = world, buf_size = 6\<rparr>,
         \<lparr>self_ptr = 7, buf_ptr = 9, buf = hello, buf_size = 5\<rparr>],
      proc_entry_list_size = 16, kheap = [9, 7, 6, 4, 3, 1]\<rparr>)"
    by (simp add: write_cases hello_world_eq all_ok_def Let_def fresh_def) (simp add: hello_def)
  have s: "succeeded (fst (write_proc_module hello_world all_ok hello 5 0))"
    by (simp add: w)
  have c: "chunks (snd (snd (write_proc_module hello_world all_ok hello 5 0))) =
      [hello, world, hello]"
    by (simp add: w chunks_def)
  from write_ignores_offset[OF h, of hello_world all_ok hello] h s c show ?thesis
    by blast
qed

text \<open>
  C5. A write that fails changes nothing: the state it returns, list, total size and live
  allocations alike, is the state it was given, and the cursor is not moved. The failures
  are the three allocations (\<^verbatim>\<open>-ENOMEM\<close>) and a transfer from the caller that delivers no
  byte (\<^verbatim>\<open>-EFAULT\<close>).
\<close>

theorem write_failure_no_mutation:
  "(write_proc_module s env usrbuf len off = (Inl e, off', s') \<longrightarrow> s' = s \<and> off' = off) \<and>
   (len \<noteq> 0 \<and> 0 \<le> sint off \<longrightarrow>
      (\<not> entry_ok env \<or> \<not> tmp_ok env \<longrightarrow>
         write_proc_module s env usrbuf len off = (Inl ENOMEM, off, s)) \<and>
      (entry_ok env \<and> tmp_ok env \<and> usrbuf = [] \<longrightarrow>
         write_proc_module s env usrbuf len off = (Inl EFAULT, off, s)) \<and>
      (entry_ok env \<and> tmp_ok env \<and> usrbuf \<noteq> [] \<and> \<not> dup_ok env \<longrightarrow>
         write_proc_module s env usrbuf len off = (Inl ENOMEM, off, s)))"
proof (intro conjI impI)
  assume a: "write_proc_module s env usrbuf len off = (Inl e, off', s')"
  then show "s' = s" by (simp add: write_cases Let_def split: if_splits)
  from a show "off' = off" by (simp add: write_cases Let_def split: if_splits)
next
  assume "len \<noteq> 0 \<and> 0 \<le> sint off" "\<not> entry_ok env \<or> \<not> tmp_ok env"
  then show "write_proc_module s env usrbuf len off = (Inl ENOMEM, off, s)"
    by (simp add: write_cases)
next
  assume "len \<noteq> 0 \<and> 0 \<le> sint off" "entry_ok env \<and> tmp_ok env \<and> usrbuf = []"
  then show "write_proc_module s env usrbuf len off = (Inl EFAULT, off, s)"
    by (simp add: write_cases)
next
  assume "len \<noteq> 0 \<and> 0 \<le> sint off"
    "entry_ok env \<and> tmp_ok env \<and> usrbuf \<noteq> [] \<and> \<not> dup_ok env"
  then show "write_proc_module s env usrbuf len off = (Inl ENOMEM, off, s)"
    by (simp add: write_cases)
qed


theorem write_failure_no_mutation_witness:
  "write_proc_module hello_world (all_ok\<lparr>entry_ok := False\<rparr>) hello 5 11 = (Inl ENOMEM, 11, hello_world) \<and>
   write_proc_module hello_world (all_ok\<lparr>tmp_ok := False\<rparr>) hello 5 11 = (Inl ENOMEM, 11, hello_world) \<and>
   write_proc_module hello_world all_ok [] 5 11 = (Inl EFAULT, 11, hello_world) \<and>
   write_proc_module hello_world (all_ok\<lparr>dup_ok := False\<rparr>) hello 5 11 = (Inl ENOMEM, 11, hello_world) \<and>
   kheap (snd (snd (write_proc_module hello_world (all_ok\<lparr>dup_ok := False\<rparr>) hello 5 11))) =
     kheap hello_world"
proof -
  note w = write_failure_no_mutation[THEN conjunct2, rule_format]
  have h: "(5 :: size_t) \<noteq> 0 \<and> 0 \<le> sint (11 :: loff_t)" by simp
  have 1: "write_proc_module hello_world (all_ok\<lparr>entry_ok := False\<rparr>) hello 5 11 =
      (Inl ENOMEM, 11, hello_world)"
    by (rule w[THEN conjunct1, rule_format, OF h]) simp
  have 2: "write_proc_module hello_world (all_ok\<lparr>tmp_ok := False\<rparr>) hello 5 11 =
      (Inl ENOMEM, 11, hello_world)"
    by (rule w[THEN conjunct1, rule_format, OF h]) simp
  have 3: "write_proc_module hello_world all_ok [] 5 11 = (Inl EFAULT, 11, hello_world)"
    by (rule w[THEN conjunct2, THEN conjunct1, rule_format, OF h]) (simp add: all_ok_def)
  have 4: "write_proc_module hello_world (all_ok\<lparr>dup_ok := False\<rparr>) hello 5 11 =
      (Inl ENOMEM, 11, hello_world)"
    by (rule w[THEN conjunct2, THEN conjunct2, rule_format, OF h]) (simp add: all_ok_def hello_def)
  have 5: "snd (snd (write_proc_module hello_world (all_ok\<lparr>dup_ok := False\<rparr>) hello 5 11)) =
      hello_world"
    using write_failure_no_mutation[THEN conjunct1, rule_format,
        of hello_world "all_ok\<lparr>dup_ok := False\<rparr>" hello 5 11 ENOMEM
           "fst (snd (write_proc_module hello_world (all_ok\<lparr>dup_ok := False\<rparr>) hello 5 11))"
           "snd (snd (write_proc_module hello_world (all_ok\<lparr>dup_ok := False\<rparr>) hello 5 11))"]
    by (simp add: 4)
  from 1 2 3 4 5 show ?thesis by simp
qed

text \<open>
  C6. A read that reaches the scan and finds its entry computes a non-zero copy count
  \<open>to_copy\<close>. If the caller's buffer takes no byte, the read returns \<^verbatim>\<open>-EFAULT\<close> and the
  cursor stays; if it takes \<open>delivered > 0\<close> bytes (all of \<open>to_copy\<close> or fewer), the read
  returns \<open>delivered\<close> and the cursor advances by exactly \<open>delivered\<close>.
\<close>

theorem read_partial_transfer:
  assumes "len \<noteq> 0" and "off < proc_entry_list_size s" and "0 \<le> sint off"
    and "rd_find (proc_entry_list_head s) off 0 = Some (entry, pos)"
  shows "let to_copy = (if pos + buf_size entry - off > len then len
                        else pos + buf_size entry - off);
             delivered = min (unat to_copy) writable
         in to_copy \<noteq> 0 \<and>
            (delivered = 0 \<longrightarrow>
               read_proc_module s writable len off = (Inl EFAULT, off, [], s)) \<and>
            (0 < delivered \<longrightarrow>
               read_proc_module s writable len off =
                 (Inr (of_nat delivered), off + of_nat delivered,
                  take delivered (drop (unat (off - pos)) (buf entry)), s))"
proof -
  from rd_find_Some_cover[OF assms(4)] have c: "pos \<le> off" "off < pos + buf_size entry"
    by simp_all
  have r: "read_proc_module s writable len off =
      (case rd_body entry pos writable len off of (retval, off', out) \<Rightarrow> (retval, off', out, s))"
    using assms(1-3) rd_loop_find_Some[OF assms(4), of writable len]
    by (simp add: read_proc_module_def not_le[symmetric])
  define to_copy where
    "to_copy = (if pos + buf_size entry - off > len then len else pos + buf_size entry - off)"
  define delivered where "delivered = min (unat to_copy) writable"
  have nz: "to_copy \<noteq> 0"
    unfolding to_copy_def by (rule rd_body_eq(1)[OF c assms(1)])
  have b: "rd_body entry pos writable len off =
      (if delivered = 0 then Inl EFAULT else Inr (of_nat delivered), off + of_nat delivered,
       take delivered (drop (unat (off - pos)) (buf entry)))"
    unfolding to_copy_def delivered_def by (rule rd_body_eq(2)[OF c assms(1)])
  have "to_copy \<noteq> 0 \<and>
            (delivered = 0 \<longrightarrow>
               read_proc_module s writable len off = (Inl EFAULT, off, [], s)) \<and>
            (0 < delivered \<longrightarrow>
               read_proc_module s writable len off =
                 (Inr (of_nat delivered), off + of_nat delivered,
                  take delivered (drop (unat (off - pos)) (buf entry)), s))"
    using nz by (simp add: r b)
  then show ?thesis unfolding Let_def to_copy_def delivered_def .
qed

theorem read_partial_transfer_witness:
  "(10 :: size_t) \<noteq> 0 \<and> (7 :: loff_t) < proc_entry_list_size hello_world \<and>
   0 \<le> sint (7 :: loff_t) \<and>
   rd_find (proc_entry_list_head hello_world) 7 0 =
     Some (\<lparr>self_ptr = 4, buf_ptr = 6, buf = world, buf_size = 6\<rparr>, 5) \<and>
   read_proc_module hello_world 0 10 7 = (Inl EFAULT, 7, [], hello_world) \<and>
   read_proc_module hello_world 3 10 7 = (Inr 3, 10, [114, 108, 100], hello_world)"
proof -
  have h: "(10 :: size_t) \<noteq> 0" "(7 :: loff_t) < proc_entry_list_size hello_world"
    "0 \<le> sint (7 :: loff_t)"
    "rd_find (proc_entry_list_head hello_world) 7 0 =
       Some (\<lparr>self_ptr = 4, buf_ptr = 6, buf = world, buf_size = 6\<rparr>, 5)"
    by (simp_all add: hello_world_eq)
  from read_partial_transfer[OF h, of 0]
  have a: "read_proc_module hello_world 0 10 7 = (Inl EFAULT, 7, [], hello_world)"
    by (simp add: Let_def)
  from read_partial_transfer[OF h, of 3]
  have b: "read_proc_module hello_world 3 10 7 = (Inr 3, 10, [114, 108, 100], hello_world)"
    by (simp add: Let_def world_def)
  from h a b show ?thesis by blast
qed

text \<open>
  C7. A read with \<open>max_length = 0\<close>, or with a non-negative offset that is at or past
  \<open>total_size\<close>, returns 0 and no bytes, and changes neither the store nor the cursor.
\<close>

theorem read_empty_result:
  assumes "len = 0 \<or> (0 \<le> sint off \<and> uint (proc_entry_list_size s) \<le> sint off)"
  shows "read_proc_module s writable len off = (Inr 0, off, [], s)"
  using assms by (auto simp: read_proc_module_def word_le_def sint_nonneg_uint)

theorem read_empty_result_witness:
  "((5 :: size_t) = 0 \<or> (0 \<le> sint (11 :: loff_t) \<and>
      uint (proc_entry_list_size hello_world) \<le> sint (11 :: loff_t))) \<and>
   read_proc_module hello_world 5 5 11 = (Inr 0, 11, [], hello_world)"
proof -
  have h: "(5 :: size_t) = 0 \<or> (0 \<le> sint (11 :: loff_t) \<and>
      uint (proc_entry_list_size hello_world) \<le> sint (11 :: loff_t))"
    by (simp add: hello_world_eq)
  from read_empty_result[OF h, of 5] h show ?thesis by simp
qed

text \<open>
  C8. No chunk of the store is empty: if every entry has \<^verbatim>\<open>buf_size\<close> at least 1, then so
  has every entry after any operation; this holds in every state the module reaches after
  loading; and a write either leaves the list as it is or links exactly one entry, whose
  \<^verbatim>\<open>buf_size\<close> is at least 1 and is the length of its buffer.
\<close>

theorem no_empty_chunk:
  "(chunks_nonempty s \<longrightarrow> chunks_nonempty (step op s)) \<and>
   chunks_nonempty (fold step ops (step (Init True) s0)) \<and>
   (proc_entry_list_head (snd (snd (write_proc_module s env usrbuf len off))) =
      proc_entry_list_head s \<or>
    (\<exists>entry. proc_entry_list_head (snd (snd (write_proc_module s env usrbuf len off))) =
        proc_entry_list_head s @ [entry] \<and>
      1 \<le> unat (buf_size entry) \<and> length (buf entry) = unat (buf_size entry)))"
proof (intro conjI impI)
  assume "chunks_nonempty s" then show "chunks_nonempty (step op s)"
    by (rule step_chunks_nonempty)
next
  have "chunks_nonempty (step (Init True) s0)" by (simp add: init_proc_module_def chunks_nonempty_def)
  then show "chunks_nonempty (fold step ops (step (Init True) s0))"
    by (rule fold_chunks_nonempty)
next
  from write_state[of s env usrbuf len off]
  show "proc_entry_list_head (snd (snd (write_proc_module s env usrbuf len off))) =
      proc_entry_list_head s \<or>
    (\<exists>entry. proc_entry_list_head (snd (snd (write_proc_module s env usrbuf len off))) =
        proc_entry_list_head s @ [entry] \<and>
      1 \<le> unat (buf_size entry) \<and> length (buf entry) = unat (buf_size entry))"
    by (auto simp: Suc_le_eq)
qed

theorem no_empty_chunk_witness:
  "chunks_nonempty hello_world \<and>
   chunks_nonempty (step (Write all_ok hello 5 11) hello_world) \<and>
   chunks (step (Write all_ok hello 5 11) hello_world) = [hello, world, hello]"
proof -
  have h: "chunks_nonempty hello_world" by (simp add: chunks_nonempty_def hello_world_eq)
  have c: "chunks (step (Write all_ok hello 5 11) hello_world) = [hello, world, hello]"
    by (simp add: chunks_def write_cases all_ok_def Let_def hello_world_eq) (simp add: hello_def)
  from no_empty_chunk[THEN conjunct1, rule_format, OF h] h c show ?thesis by blast
qed

text \<open>
  C9. With \<open>length = 0\<close>, read and write return 0 for every offset, negative ones
  included: the test of the length comes before the test of the offset, so the result is
  the empty success and not \<^verbatim>\<open>-EINVAL\<close>. Neither the store nor the cursor changes.
\<close>

theorem zero_length_returns_zero:
  "read_proc_module s writable 0 off = (Inr 0, off, [], s) \<and>
   write_proc_module s env usrbuf 0 off = (Inr 0, off, s) \<and>
   ssize_of (Inr 0) = 0 \<and> ssize_of (Inr 0) \<noteq> ssize_of (Inl EINVAL)"
  by (simp add: read_proc_module_def write_proc_module_def)

text \<open>
  C10. Under the invariant that \<open>total_size\<close> is the sum of all \<^verbatim>\<open>buf_size\<close>, a read at
  \<open>0 \<le> off < total_size\<close> always finds an entry in its scan, the entry's range covers
  \<open>off\<close>, the read is the loop body run on that entry (the fall through past the loop does
  not happen), and the index into the entry's buffer plus the copy count stays within
  \<^verbatim>\<open>buf_size\<close>, for every requested length.
\<close>

theorem read_scan_in_bounds:
  assumes "size_inv s" and "0 \<le> sint off" and "sint off < uint (proc_entry_list_size s)"
  shows "\<exists>entry pos.
      rd_find (proc_entry_list_head s) off 0 = Some (entry, pos) \<and>
      entry \<in> set (proc_entry_list_head s) \<and>
      unat pos \<le> unat off \<and> unat off < unat pos + unat (buf_size entry) \<and>
      (\<forall>len. unat (off - pos) +
           unat (if pos + buf_size entry - off > len then len else pos + buf_size entry - off)
           \<le> unat (buf_size entry)) \<and>
      (\<forall>writable len. len \<noteq> 0 \<longrightarrow> read_proc_module s writable len off =
           (case rd_body entry pos writable len off of
              (retval, off', out) \<Rightarrow> (retval, off', out, s)))"
proof -
  let ?es = "proc_entry_list_head s"
  have lt: "off < proc_entry_list_size s" "unat off < unat (proc_entry_list_size s)"
    using off_in_range[OF assms(2,3)] by simp_all
  have tot: "unat (proc_entry_list_size s) = sum_list (sizes ?es)"
    using assms(1) by (simp add: size_inv_def)
  have nw: "unat (0::64 word) + sum_list (sizes ?es) < 2 ^ 64"
    using tot unsigned_less[of "proc_entry_list_size s", where 'a=nat] by simp
  have lo: "unat (0::64 word) \<le> unat off" by simp
  have hi: "unat off < unat (0::64 word) + sum_list (sizes ?es)" using lt tot by simp
  from rd_find_total[OF nw lo hi] obtain e p where
    f: "rd_find ?es off 0 = Some (e, p)" and m: "e \<in> set ?es" and
    c: "unat p \<le> unat off" "unat off < unat p + unat (buf_size e)"
       "unat p + unat (buf_size e) < 2 ^ 64"
    by blast
  have b: "unat (off - p) +
           unat (if p + buf_size e - off > len then len else p + buf_size e - off)
           \<le> unat (buf_size e)" for len
    using to_copy_unat(3)[OF c] to_copy_unat(4)[OF c, of len] c(1,2) by simp
  have r: "read_proc_module s writable len off =
      (case rd_body e p writable len off of (retval, off', out) \<Rightarrow> (retval, off', out, s))"
    if "len \<noteq> 0" for writable len
    using that lt(1) assms(2) rd_loop_find_Some[OF f, of writable len]
    by (simp add: read_proc_module_def not_le[symmetric])
  from f m c(1,2) b r show ?thesis by blast
qed

theorem read_scan_in_bounds_witness:
  "size_inv hello_world \<and> 0 \<le> sint (7 :: loff_t) \<and>
   sint (7 :: loff_t) < uint (proc_entry_list_size hello_world) \<and>
   (\<exists>entry pos. rd_find (proc_entry_list_head hello_world) 7 0 = Some (entry, pos) \<and>
      entry \<in> set (proc_entry_list_head hello_world) \<and>
      unat pos \<le> unat (7 :: loff_t) \<and> unat (7 :: loff_t) < unat pos + unat (buf_size entry))"
proof -
  have h: "size_inv hello_world" "0 \<le> sint (7 :: loff_t)"
    "sint (7 :: loff_t) < uint (proc_entry_list_size hello_world)"
    by (simp_all add: hello_world_inv) (simp add: hello_world_eq)
  from read_scan_in_bounds[OF h] h show ?thesis by blast
qed

end
